theory Spec2Isabelle
  imports Main "HOL-Library.Sublist" "HOL-Library.Monad_Syntax"
begin

section \<open>The tokenizer of \<^verbatim>\<open>src/index.ts\<close>\<close>

text \<open>
  A JavaScript string is a sequence of code units; it is modelled as a \<^typ>\<open>string\<close>,
  one \<^typ>\<open>char\<close> for each code unit, so that \<^term>\<open>length\<close> is the \<^verbatim>\<open>.length\<close>
  of the source. JavaScript numbers that count positions are modelled as \<^typ>\<open>int\<close>.
  \<^verbatim>\<open>null\<close> and \<^verbatim>\<open>undefined\<close> are \<^term>\<open>None\<close>.
\<close>

subsection \<open>Built-in operations the source calls\<close>

definition newline :: char where
  "newline = CHR 0x0A"

text \<open>\<^verbatim>\<open>text.slice(i)\<close>: a negative start counts from the end, a start past the
  end gives the empty string.\<close>

definition slice :: "string \<Rightarrow> int \<Rightarrow> string" where
  "slice text i =
     (if i < 0 then drop (nat (max (int (length text) + i) 0)) text
      else drop (nat i) text)"

text \<open>\<^verbatim>\<open>text.startsWith(search)\<close>.\<close>

definition startsWith :: "string \<Rightarrow> string \<Rightarrow> bool" where
  "startsWith text search =
     (if length text < length search then False
      else take (length search) text = search)"

text \<open>\<^verbatim>\<open>text[i]\<close>: \<^verbatim>\<open>undefined\<close> outside the string.\<close>

definition char_at :: "string \<Rightarrow> int \<Rightarrow> char option" where
  "char_at text i =
     (if 0 \<le> i \<and> i < int (length text) then Some (text ! nat i) else None)"

text \<open>
  A \<^verbatim>\<open>RegExp\<close> object is given by its compiled pattern, its \<^verbatim>\<open>g\<close> and
  \<^verbatim>\<open>y\<close> flags and its address. Applied to the input and a start index, the pattern
  either fails there or says how many code units the match that starts there spans.
  The one property of the object that changes is \<^verbatim>\<open>lastIndex\<close>; the heap holds it,
  for every address. Two matchers with the same address are the same object.
\<close>

datatype RegExp =
  RegExp (pattern: "string \<Rightarrow> nat \<Rightarrow> nat option") (global: bool) (sticky: bool) (address: nat)

type_synonym heap = "nat \<Rightarrow> nat"

text \<open>
  The search of \<^verbatim>\<open>RegExpBuiltinExec\<close> from the start index \<open>k\<close>: it fails when
  \<open>k\<close> is past the end of the input; where the pattern fails at \<open>k\<close>, a sticky
  search fails and any other goes on at \<open>k + 1\<close>. A match gives the index at which
  it starts and the matched substring.
\<close>

function exec_from :: "RegExp \<Rightarrow> string \<Rightarrow> nat \<Rightarrow> (nat \<times> string) option" where
  "exec_from r text k =
     (if length text < k then None
      else (case pattern r text k of
              Some n \<Rightarrow> Some (k, take n (drop k text))
            | None \<Rightarrow> if sticky r then None else exec_from r text (k + 1)))"
  by pat_completeness auto
termination
  by (relation "measure (\<lambda>(r, text, k). Suc (length text) - k)") auto

text \<open>
  \<^verbatim>\<open>matcher.exec(text)\<close>. With the \<^verbatim>\<open>g\<close> or the \<^verbatim>\<open>y\<close> flag the search starts at
  the \<^verbatim>\<open>lastIndex\<close> the object holds, and the call leaves the end of the match
  there, or 0 when it finds none; without them the search starts at 0 and
  \<^verbatim>\<open>lastIndex\<close> is left alone. The result carries \<^verbatim>\<open>match.index\<close> and
  \<^verbatim>\<open>match[0]\<close>.
\<close>

definition exec :: "RegExp \<Rightarrow> string \<Rightarrow> heap \<Rightarrow> (nat \<times> string) option \<times> heap" where
  "exec r text h =
     (let lastIndex = (if global r \<or> sticky r then h (address r) else 0)
      in case exec_from r text lastIndex of
           None \<Rightarrow> (None, if global r \<or> sticky r then h(address r := 0) else h)
         | Some (index, m) \<Rightarrow>
             (Some (index, m),
              if global r \<or> sticky r then h(address r := index + length m) else h))"

text \<open>
  \<^verbatim>\<open>Object.entries(obj)\<close> lists the own properties of an object in the order of
  \<^verbatim>\<open>OrdinaryOwnPropertyKeys\<close>: first the keys that are array indices (the canonical
  decimal numerals of \<open>0, \<dots>, 2\<^sup>3\<^sup>2 - 2\<close>) in ascending numeric order, then every
  other key in the order in which the properties were created.
\<close>

definition is_digit :: "char \<Rightarrow> bool" where
  "is_digit c = (48 \<le> (of_char c :: nat) \<and> (of_char c :: nat) \<le> 57)"

definition digits_value :: "string \<Rightarrow> nat" where
  "digits_value key = foldl (\<lambda>n c. 10 * n + ((of_char c :: nat) - 48)) 0 key"

definition array_index :: "string \<Rightarrow> nat option" where
  "array_index key =
     (if key \<noteq> [] \<and> list_all is_digit key \<and> (key = ''0'' \<or> hd key \<noteq> CHR ''0'')
         \<and> digits_value key < 2 ^ 32 - 1
      then Some (digits_value key) else None)"

definition Object_entries :: "(string \<times> 'v) list \<Rightarrow> (string \<times> 'v) list" where
  "Object_entries obj =
     sort_key (\<lambda>(key, v). case array_index key of Some n \<Rightarrow> n | None \<Rightarrow> 0)
              (filter (\<lambda>(key, v). array_index key \<noteq> None) obj)
     @ filter (\<lambda>(key, v). array_index key = None) obj"

text \<open>\<^verbatim>\<open>array.includes(x)\<close> on an array of strings.\<close>

definition Array_includes :: "string list \<Rightarrow> string \<Rightarrow> bool" where
  "Array_includes array x = (x \<in> set array)"

subsection \<open>Types\<close>

text \<open>A matcher is a string, a \<^verbatim>\<open>RegExp\<close> object, or a function from the remaining
  text to the match or \<^verbatim>\<open>null\<close>. A function matcher is a function of its argument
  alone.\<close>

datatype TokenMatcher =
    MString string
  | MRegExp RegExp
  | MFunction "string \<Rightarrow> string option"

text \<open>A token specification is an object: the list of its properties in the order in
  which they were created, every key once.\<close>

type_synonym TokenSpecification = "(string \<times> TokenMatcher) list"

subsection \<open>\<^verbatim>\<open>match_start_of_text\<close>\<close>

text \<open>The result, and the heap as the call leaves it.\<close>

fun match_start_of_text :: "string \<Rightarrow> TokenMatcher \<Rightarrow> heap \<Rightarrow> string option \<times> heap" where
  "match_start_of_text text (MString matcher) h =
     (if startsWith text matcher then Some matcher else None, h)"
| "match_start_of_text text (MRegExp matcher) h =
     (case exec matcher text h of
        (Some (index, m), h') \<Rightarrow> (if index = 0 then Some m else None, h')
      | (None, h') \<Rightarrow> (None, h'))"
| "match_start_of_text text (MFunction matcher) h = (matcher text, h)"

subsection \<open>\<^verbatim>\<open>get_line_and_column\<close>\<close>

function glc_loop :: "string \<Rightarrow> int \<Rightarrow> int \<Rightarrow> int \<times> int \<Rightarrow> int \<times> int" where
  "glc_loop text index i (line, column) =
     (if i < index then
        (if char_at text i = Some newline
         then glc_loop text index (i + 1) (line + 1, 1)
         else glc_loop text index (i + 1) (line, column + 1))
      else (line, column))"
  by pat_completeness auto
termination
  by (relation "measure (\<lambda>(text, index, i, lc). nat (index - i))") auto

definition get_line_and_column :: "string \<Rightarrow> int \<Rightarrow> int \<times> int" where
  "get_line_and_column text index = glc_loop text index 0 (1, 1)"

subsection \<open>Tokens\<close>

record Token =
  type :: string
  "value" :: string
  line :: int
  column :: int

subsection \<open>\<^verbatim>\<open>token_iterator\<close>\<close>

text \<open>The inner loop at cursor \<open>i\<close>: the entries are tried in the order of
  \<^verbatim>\<open>Object.entries\<close>, each on the heap the one before it left; the first match
  builds the token that is yielded.\<close>

fun matchers_loop ::
    "string \<Rightarrow> int \<Rightarrow> (string \<times> TokenMatcher) list \<Rightarrow> heap \<Rightarrow> Token option \<times> heap" where
  "matchers_loop text i [] h = (None, h)"
| "matchers_loop text i ((ty, matcher) # entries) h =
     (case match_start_of_text (slice text i) matcher h of
        (Some m, h') \<Rightarrow>
          (case get_line_and_column text i of
             (ln, col) \<Rightarrow> (Some \<lparr>type = ty, value = m, line = ln, column = col\<rparr>, h'))
      | (None, h') \<Rightarrow> matchers_loop text i entries h')"

text \<open>The outer loop, run from cursor \<open>i\<close> up to the next \<^verbatim>\<open>yield\<close> (the token and
  the cursor at which it was matched) or to the end of the text. A position where no
  matcher matches is left by the \<^verbatim>\<open>i++\<close> of the loop alone.\<close>

function for_loop ::
    "string \<Rightarrow> TokenSpecification \<Rightarrow> int \<Rightarrow> heap \<Rightarrow> (Token \<times> int) option \<times> heap" where
  "for_loop text token_spec i h =
     (if i < int (length text) then
        (case matchers_loop text i (Object_entries token_spec) h of
           (Some token, h') \<Rightarrow> (Some (token, i), h')
         | (None, h') \<Rightarrow> for_loop text token_spec (i + 1) h')
      else (None, h))"
  by pat_completeness auto
termination
  by (relation "measure (\<lambda>(text, token_spec, i, h). nat (int (length text) - i))") auto

text \<open>
  The generator object. Between two calls of \<^verbatim>\<open>next\<close> it is suspended: at its start,
  or at the \<^verbatim>\<open>yield\<close> with the loop variable \<open>i\<close> and the match, the statements
  \<^verbatim>\<open>i += match.length - 1; break;\<close> and the \<^verbatim>\<open>i++\<close> of the outer loop still to
  run; or it has completed.
\<close>

datatype GeneratorState =
    SuspendedStart
  | SuspendedYield int string
  | Completed

record Generator =
  gen_text :: string
  gen_spec :: TokenSpecification
  gen_state :: GeneratorState

datatype 'a IteratorResult = Value 'a | Done

definition token_iterator :: "string \<Rightarrow> TokenSpecification \<Rightarrow> Generator" where
  "token_iterator text token_spec =
     \<lparr>gen_text = text, gen_spec = token_spec, gen_state = SuspendedStart\<rparr>"

text \<open>\<^verbatim>\<open>iterator.next()\<close> returns the result, the generator and the heap as the call
  leaves them.\<close>

definition resume :: "Generator \<Rightarrow> int \<Rightarrow> heap \<Rightarrow> Token IteratorResult \<times> Generator \<times> heap" where
  "resume g i h =
     (case for_loop (gen_text g) (gen_spec g) i h of
        (Some (token, j), h') \<Rightarrow>
          (Value token, g\<lparr>gen_state := SuspendedYield j (value token)\<rparr>, h')
      | (None, h') \<Rightarrow> (Done, g\<lparr>gen_state := Completed\<rparr>, h'))"

definition Generator_next :: "Generator \<Rightarrow> heap \<Rightarrow> Token IteratorResult \<times> Generator \<times> heap" where
  "Generator_next g h =
     (case gen_state g of
        SuspendedStart \<Rightarrow> resume g 0 h
      | SuspendedYield i m \<Rightarrow> resume g (i + (int (length m) - 1) + 1) h
      | Completed \<Rightarrow> (Done, g, h))"

text \<open>\<^verbatim>\<open>iterator.return()\<close>: the generator has no \<^verbatim>\<open>finally\<close> block, so it
  completes at once with \<^verbatim>\<open>{value: undefined, done: true}\<close>; no matcher runs.\<close>

definition Generator_return :: "Generator \<Rightarrow> Token IteratorResult \<times> Generator" where
  "Generator_return g = (Done, g\<lparr>gen_state := Completed\<rparr>)"

subsection \<open>\<^verbatim>\<open>tokenize\<close>\<close>

text \<open>\<^verbatim>\<open>Array.from(iterator)\<close> appends the values to a new array until the iterator
  is done. It need not return: \<^term>\<open>None\<close> stands for a call that runs forever.\<close>

partial_function (option) Array_from_loop ::
    "Generator \<Rightarrow> Token list \<Rightarrow> heap \<Rightarrow> (Token list \<times> heap) option" where
  "Array_from_loop g A h =
     (case Generator_next g h of
        (Done, g', h') \<Rightarrow> Some (A, h')
      | (Value v, g', h') \<Rightarrow> Array_from_loop g' (A @ [v]) h')"

definition Array_from :: "Generator \<Rightarrow> heap \<Rightarrow> (Token list \<times> heap) option" where
  "Array_from g h = Array_from_loop g [] h"

definition tokenize :: "string \<Rightarrow> TokenSpecification \<Rightarrow> heap \<Rightarrow> (Token list \<times> heap) option" where
  "tokenize text token_spec h = Array_from (token_iterator text token_spec) h"

subsection \<open>\<^verbatim>\<open>TokenStream\<close>\<close>

record TokenStream =
  iterator :: Generator

definition TokenStream_new :: "string \<Rightarrow> TokenSpecification \<Rightarrow> TokenStream" where
  "TokenStream_new text spec = \<lparr>iterator = token_iterator text spec\<rparr>"

text \<open>\<^verbatim>\<open>next(...ignored_types)\<close> returns the token or \<^verbatim>\<open>null\<close>, and the stream
  and the heap as the call leaves them. The \<^verbatim>\<open>while (true)\<close> loop need not return.\<close>

partial_function (option) TokenStream_next ::
    "TokenStream \<Rightarrow> string list \<Rightarrow> heap \<Rightarrow> (Token option \<times> TokenStream \<times> heap) option" where
  "TokenStream_next this ignored_types h =
     (case Generator_next (iterator this) h of
        (Done, g', h') \<Rightarrow> Some (None, this\<lparr>iterator := g'\<rparr>, h')
      | (Value v, g', h') \<Rightarrow>
          if Array_includes ignored_types (type v)
          then TokenStream_next (this\<lparr>iterator := g'\<rparr>) ignored_types h'
          else Some (Some v, this\<lparr>iterator := g'\<rparr>, h'))"

text \<open>\<^verbatim>\<open>close()\<close> returns what \<^verbatim>\<open>iterator.return()\<close> returns. (The method
  \<^verbatim>\<open>[Symbol.iterator]\<close>, which hands out the remaining tokens of the same generator,
  is not needed below.)\<close>

definition TokenStream_close :: "TokenStream \<Rightarrow> Token IteratorResult \<times> TokenStream" where
  "TokenStream_close this =
     (case Generator_return (iterator this) of (r, g') \<Rightarrow> (r, this\<lparr>iterator := g'\<rparr>))"

subsection \<open>Matchers of the catalogue and of the examples\<close>

text \<open>\<^verbatim>\<open>Matchers.Word\<close> is \<^verbatim>\<open>/\w+/\<close>: at a start index it matches the longest run
  of word characters \<^verbatim>\<open>[A-Za-z0-9_]\<close>, which must not be empty.
  \<^verbatim>\<open>Matchers.AnyCharacter\<close> is \<^verbatim>\<open>/./s\<close>: it matches any one code unit. Neither
  has a flag that makes \<^verbatim>\<open>exec\<close> use \<^verbatim>\<open>lastIndex\<close>.\<close>

definition is_word_char :: "char \<Rightarrow> bool" where
  "is_word_char c =
     (let n = (of_char c :: nat) in
      (65 \<le> n \<and> n \<le> 90) \<or> (97 \<le> n \<and> n \<le> 122) \<or> (48 \<le> n \<and> n \<le> 57) \<or> n = 95)"

definition Word :: RegExp where
  "Word = RegExp (\<lambda>text k. case length (takeWhile is_word_char (drop k text)) of
                               0 \<Rightarrow> None
                             | Suc n \<Rightarrow> Some (Suc n))
                 False False 0"

definition AnyCharacter :: RegExp where
  "AnyCharacter = RegExp (\<lambda>text k. if k < length text then Some 1 else None) False False 1"

text \<open>\<^verbatim>\<open>/\w/g\<close>: the pattern of \<^verbatim>\<open>Matchers.WordCharacter\<close>, one word character, with
  the \<^verbatim>\<open>g\<close> flag.\<close>

definition WordCharacter_g :: RegExp where
  "WordCharacter_g =
     RegExp (\<lambda>text k. if k < length text \<and> is_word_char (text ! k) then Some 1 else None)
            True False 2"

text \<open>The heap in which every \<^verbatim>\<open>lastIndex\<close> is 0, as it is for a \<^verbatim>\<open>RegExp\<close> that
  has not been used.\<close>

definition fresh :: heap where
  "fresh = (\<lambda>a. 0)"

section \<open>Observations on a scan\<close>

text \<open>
  A full scan, as the sequence of the visits of the outer loop: the cursor of each
  iteration, with the token yielded there or \<^term>\<open>None\<close> when no matcher matched.
  The cursor moves as in the source: \<^verbatim>\<open>i += match.length - 1\<close> after a
  \<^verbatim>\<open>yield\<close>, then \<^verbatim>\<open>i++\<close>. The scan need not end.
\<close>

type_synonym visit = "int \<times> Token option"

partial_function (option) scan ::
    "string \<Rightarrow> TokenSpecification \<Rightarrow> int \<Rightarrow> heap \<Rightarrow> (visit list \<times> heap) option" where
  "scan text token_spec i h =
     (if i < int (length text) then
        (case matchers_loop text i (Object_entries token_spec) h of
           (Some token, h') \<Rightarrow>
             do { (visits, h'') \<leftarrow> scan text token_spec (i + (int (length (value token)) - 1) + 1) h';
                  Some ((i, Some token) # visits, h'') }
         | (None, h') \<Rightarrow>
             do { (visits, h'') \<leftarrow> scan text token_spec (i + 1) h';
                  Some ((i, None) # visits, h'') })
      else Some ([], h))"

text \<open>The advance of the cursor a visit makes, and their sum over a scan.\<close>

fun advance :: "visit \<Rightarrow> int" where
  "advance (i, Some token) = int (length (value token))"
| "advance (i, None) = 1"

definition total_advance :: "visit list \<Rightarrow> int" where
  "total_advance visits = sum_list (map advance visits)"

text \<open>The visits are contiguous from \<open>i\<close>: each one starts where the advance of the
  one before it ended.\<close>

fun contiguous :: "int \<Rightarrow> visit list \<Rightarrow> bool" where
  "contiguous i [] = True"
| "contiguous i (v # visits) = (fst v = i \<and> contiguous (i + advance v) visits)"

text \<open>The tokens a scan yields.\<close>

fun yielded :: "visit list \<Rightarrow> Token list" where
  "yielded [] = []"
| "yielded ((i, Some token) # visits) = token # yielded visits"
| "yielded ((i, None) # visits) = yielded visits"

text \<open>\<open>pulls g h tokens g' h'\<close>: successive calls of \<^verbatim>\<open>next\<close> on the generator
  \<open>g\<close>, the first on the heap \<open>h\<close>, return \<open>tokens\<close>, in this order, and leave the
  generator as \<open>g'\<close> and the heap as \<open>h'\<close>.\<close>

inductive pulls :: "Generator \<Rightarrow> heap \<Rightarrow> Token list \<Rightarrow> Generator \<Rightarrow> heap \<Rightarrow> bool" where
  pulls_Nil: "pulls g h [] g h"
| pulls_Cons: "Generator_next g h = (Value v, g', h') \<Longrightarrow> pulls g' h' vs g'' h''
               \<Longrightarrow> pulls g h (v # vs) g'' h''"

code_pred (modes: i \<Rightarrow> i \<Rightarrow> o \<Rightarrow> o \<Rightarrow> o \<Rightarrow> bool) pulls .

text \<open>The eager drain of a generator to exhaustion, in the words of the specification:
  \<open>drain g h tokens h'\<close> when calling \<^verbatim>\<open>next\<close> until it reports \<^verbatim>\<open>done\<close>
  returns \<open>tokens\<close>, in this order, and leaves the heap as \<open>h'\<close>.\<close>

inductive drain :: "Generator \<Rightarrow> heap \<Rightarrow> Token list \<Rightarrow> heap \<Rightarrow> bool" where
  drain_Done: "Generator_next g h = (Done, g', h') \<Longrightarrow> drain g h [] h'"
| drain_Value: "Generator_next g h = (Value v, g', h') \<Longrightarrow> drain g' h' vs h''
                \<Longrightarrow> drain g h (v # vs) h''"

code_pred (modes: i \<Rightarrow> i \<Rightarrow> o \<Rightarrow> o \<Rightarrow> bool) drain .

text \<open>A sequence of calls of \<^verbatim>\<open>next\<close> on a stream, one list of ignored types for
  each call (\<open>next_calls\<close>, built on the method of the source), and what the
  specification expects the calls to return on a stream whose remaining underlying
  tokens are given (\<open>expected_nexts\<close>, in the words of the specification): each call
  drops the tokens of an ignored type at the front and returns the first token that is
  left, or \<^verbatim>\<open>null\<close> when none is.\<close>

fun next_calls ::
    "TokenStream \<Rightarrow> string list list \<Rightarrow> heap \<Rightarrow> (Token option list \<times> TokenStream \<times> heap) option" where
  "next_calls this [] h = Some ([], this, h)"
| "next_calls this (ignored_types # rest) h =
     (case TokenStream_next this ignored_types h of
        None \<Rightarrow> None
      | Some (r, this', h') \<Rightarrow>
          (case next_calls this' rest h' of
             None \<Rightarrow> None
           | Some (rs, this'', h'') \<Rightarrow> Some (r # rs, this'', h'')))"

fun expected_nexts :: "Token list \<Rightarrow> string list list \<Rightarrow> Token option list" where
  "expected_nexts remaining [] = []"
| "expected_nexts remaining (ignored_types # rest) =
     (case dropWhile (\<lambda>t. type t \<in> set ignored_types) remaining of
        [] \<Rightarrow> None # expected_nexts [] rest
      | t # remaining' \<Rightarrow> Some t # expected_nexts remaining' rest)"

section \<open>Properties of the built-in operations and of the loops\<close>

text \<open>The recursive equations of the loops are unfolded by hand, where a proof needs
  them.\<close>

declare exec_from.simps [simp del] glc_loop.simps [simp del] for_loop.simps [simp del]

subsection \<open>Matchers\<close>

lemma startsWith_prefix: "startsWith s search \<longleftrightarrow> prefix search s"
proof
  assume "startsWith s search"
  then have "take (length search) s = search"
    by (simp add: startsWith_def split: if_splits)
  then show "prefix search s"
    by (metis take_is_prefix)
next
  assume "prefix search s"
  then show "startsWith s search"
    by (auto simp: startsWith_def prefix_def)
qed

lemma exec_from_Some:
  "exec_from r s k = Some (j, m) \<Longrightarrow>
     k \<le> j \<and> j \<le> length s \<and> (\<forall>l. k \<le> l \<and> l < j \<longrightarrow> pattern r s l = None)
     \<and> (\<exists>n. pattern r s j = Some n \<and> m = take n (drop j s))
     \<and> (sticky r \<longrightarrow> j = k)"
proof (induction r s k rule: exec_from.induct)
  case (1 r s k)
  from "1.prems" have le: "\<not> length s < k"
    by (subst (asm) exec_from.simps) (simp split: if_splits)
  show ?case
  proof (cases "pattern r s k")
    case None
    with "1.prems" le have ns: "\<not> sticky r"
      by (subst (asm) exec_from.simps) (simp split: if_splits)
    with "1.prems" le None have rec: "exec_from r s (k + 1) = Some (j, m)"
      by (subst (asm) exec_from.simps) simp
    from "1.IH"[OF le None ns rec]
    have IH: "k + 1 \<le> j" "j \<le> length s"
      "\<forall>l. k + 1 \<le> l \<and> l < j \<longrightarrow> pattern r s l = None"
      "\<exists>n. pattern r s j = Some n \<and> m = take n (drop j s)"
      by simp_all
    have "pattern r s l = None" if "k \<le> l \<and> l < j" for l
    proof (cases "l = k")
      case True
      with None show ?thesis by simp
    next
      case False
      with that IH(3) show ?thesis by simp
    qed
    with IH ns show ?thesis by simp
  next
    case (Some n)
    with "1.prems" le show ?thesis
      by (subst (asm) exec_from.simps) auto
  qed
qed

lemma exec_from_None:
  "exec_from r s k = None \<Longrightarrow> \<not> sticky r \<Longrightarrow> k \<le> l \<Longrightarrow> l \<le> length s
     \<Longrightarrow> pattern r s l = None"
proof (induction r s k rule: exec_from.induct)
  case (1 r s k)
  from "1.prems" have le: "\<not> length s < k" by simp
  show ?case
  proof (cases "pattern r s k")
    case None
    with "1.prems" le have rec: "exec_from r s (k + 1) = None"
      by (subst (asm) exec_from.simps) simp
    show ?thesis
    proof (cases "l = k")
      case True
      with None show ?thesis by simp
    next
      case False
      with "1.prems" have "k + 1 \<le> l" by simp
      from "1.IH"[OF le None "1.prems"(2) rec "1.prems"(2) this "1.prems"(4)] show ?thesis .
    qed
  next
    case (Some n)
    with "1.prems" le show ?thesis
      by (subst (asm) exec_from.simps) auto
  qed
qed

text \<open>Where \<^verbatim>\<open>exec\<close> starts its search at 0 (the \<^verbatim>\<open>RegExp\<close> has neither flag, or
  its \<^verbatim>\<open>lastIndex\<close> is 0), the matcher matches exactly when the pattern matches at
  offset 0.\<close>

lemma exec_from_0_anchored:
  "(case exec_from r s 0 of Some (index, m) \<Rightarrow> if index = 0 then Some m else None | None \<Rightarrow> None)
     = map_option (\<lambda>n. take n s) (pattern r s 0)"
proof (cases "pattern r s 0")
  case (Some n)
  then show ?thesis by (simp add: exec_from.simps[of r s 0])
next
  case None
  show ?thesis
  proof (cases "exec_from r s 0")
    case None
    with \<open>pattern r s 0 = None\<close> show ?thesis by simp
  next
    case (Some km)
    obtain k m where km: "km = (k, m)" by (cases km)
    from Some km exec_from_Some[of r s 0 k m] \<open>pattern r s 0 = None\<close>
    have "k \<noteq> 0" by (cases "k = 0") auto
    with Some km \<open>pattern r s 0 = None\<close> show ?thesis by simp
  qed
qed

lemma match_regexp_anchored:
  assumes "global r \<or> sticky r \<longrightarrow> h (address r) = 0"
  shows "fst (match_start_of_text s (MRegExp r) h) = map_option (\<lambda>n. take n s) (pattern r s 0)"
proof -
  from assms have "(if global r \<or> sticky r then h (address r) else 0) = 0" by auto
  then have "fst (match_start_of_text s (MRegExp r) h)
      = (case exec_from r s 0 of Some (index, m) \<Rightarrow> if index = 0 then Some m else None
         | None \<Rightarrow> None)"
    by (simp add: exec_def split: option.splits)
  then show ?thesis by (simp only: exec_from_0_anchored)
qed

lemma match_regexp_heap:
  "\<not> global r \<Longrightarrow> \<not> sticky r \<Longrightarrow> snd (match_start_of_text s (MRegExp r) h) = h"
  by (simp add: exec_def split: option.splits)

lemma match_start_of_text_length:
  "fst (match_start_of_text t (MString lit) h) = Some m \<Longrightarrow> length m \<le> length t"
  "fst (match_start_of_text t (MRegExp r) h) = Some m \<Longrightarrow> length m \<le> length t"
proof -
  show "fst (match_start_of_text t (MString lit) h) = Some m \<Longrightarrow> length m \<le> length t"
    by (auto simp: startsWith_def split: if_splits)
  assume a: "fst (match_start_of_text t (MRegExp r) h) = Some m"
  then obtain k where e: "fst (exec r t h) = Some (k, m)"
    by (auto split: prod.splits option.splits if_splits)
  then have "\<exists>l. exec_from r t l = Some (k, m)"
    by (auto simp: exec_def Let_def split: option.splits)
  then obtain l where "exec_from r t l = Some (k, m)" by blast
  from exec_from_Some[OF this] show "length m \<le> length t" by auto
qed

subsection \<open>Line and column\<close>

lemma glc_loop_positive:
  "1 \<le> fst lc \<Longrightarrow> 1 \<le> snd lc \<Longrightarrow>
     1 \<le> fst (glc_loop s index i lc) \<and> 1 \<le> snd (glc_loop s index i lc)"
proof (induction s index i lc rule: glc_loop.induct)
  case (1 s index i ln col)
  then show ?case by (subst (1 2) glc_loop.simps) (simp split: if_splits)
qed

lemma glc_loop_closed_form:
  assumes "0 \<le> i" "i \<le> index" "index \<le> int (length s)"
    and "lc = (1 + int (count_list (take (nat i) s) newline),
               1 + int (length (takeWhile (\<lambda>c. c \<noteq> newline) (rev (take (nat i) s)))))"
  shows "glc_loop s index i lc =
           (1 + int (count_list (take (nat index) s) newline),
            1 + int (length (takeWhile (\<lambda>c. c \<noteq> newline) (rev (take (nat index) s)))))"
  using assms
proof (induction s index i lc rule: glc_loop.induct)
  case (1 s index i ln col)
  show ?case
  proof (cases "i < index")
    case False
    with "1.prems" have "i = index" by simp
    with "1.prems" show ?thesis by (subst glc_loop.simps) simp
  next
    case True
    with "1.prems" have n: "nat i < length s" by simp
    from "1.prems" have nat_Suc: "nat (i + 1) = Suc (nat i)" by simp
    from "1.prems" True have ch: "char_at s i = Some (s ! nat i)"
      by (simp add: char_at_def)
    have tk: "take (Suc (nat i)) s = take (nat i) s @ [s ! nat i]"
      using n by (simp add: take_Suc_conv_app_nth)
    show ?thesis
    proof (cases "s ! nat i = newline")
      case nl: True
      have "glc_loop s index i (ln, col) = glc_loop s index (i + 1) (ln + 1, 1)"
        using True ch nl by (subst glc_loop.simps) simp
      also have "\<dots> = (1 + int (count_list (take (nat index) s) newline),
            1 + int (length (takeWhile (\<lambda>c. c \<noteq> newline) (rev (take (nat index) s)))))"
        using "1.prems" True nl tk nat_Suc
        by (intro "1.IH"(1)[OF True]) (simp_all add: ch)
      finally show ?thesis .
    next
      case nl: False
      have "glc_loop s index i (ln, col) = glc_loop s index (i + 1) (ln, col + 1)"
        using True ch nl by (subst glc_loop.simps) simp
      also have "\<dots> = (1 + int (count_list (take (nat index) s) newline),
            1 + int (length (takeWhile (\<lambda>c. c \<noteq> newline) (rev (take (nat index) s)))))"
        using "1.prems" True nl tk nat_Suc
        by (intro "1.IH"(2)[OF True]) (simp_all add: ch)
      finally show ?thesis .
    qed
  qed
qed

subsection \<open>Evaluation on concrete inputs\<close>

text \<open>The equations that evaluate the model on a concrete input.\<close>

lemmas eval_defs =
  tokenize_def Array_from_def token_iterator_def Array_from_loop.simps Generator_next_def
  resume_def for_loop.simps Object_entries_def array_index_def is_digit_def digits_value_def
  startsWith_def slice_def get_line_and_column_def glc_loop.simps char_at_def newline_def
  exec_def exec_from.simps Word_def AnyCharacter_def WordCharacter_g_def is_word_char_def
  fresh_def

subsection \<open>The loops of \<^verbatim>\<open>token_iterator\<close>\<close>

lemma Object_entries_no_array_index:
  assumes "\<forall>key \<in> fst ` set obj. array_index key = None"
  shows "Object_entries obj = obj"
proof -
  from assms have "filter (\<lambda>(key, v). array_index key \<noteq> None) obj = []"
    by (auto simp: filter_empty_conv)
  moreover from assms have "filter (\<lambda>(key, v). array_index key = None) obj = obj"
    by (auto simp: filter_id_conv)
  ultimately show ?thesis by (simp add: Object_entries_def)
qed

lemma matchers_loop_first_match:
  "matchers_loop s i before h = (None, h1) \<Longrightarrow>
   match_start_of_text (slice s i) matcher h1 = (Some m, h2) \<Longrightarrow>
     matchers_loop s i (before @ (ty, matcher) # after) h
       = (Some \<lparr>type = ty, value = m, line = fst (get_line_and_column s i),
                column = snd (get_line_and_column s i)\<rparr>, h2)"
proof (induction before arbitrary: h)
  case Nil
  then show ?case by (simp split: prod.splits)
next
  case (Cons e before)
  obtain ty' matcher' where e: "e = (ty', matcher')" by (cases e)
  obtain r h' where r: "match_start_of_text (slice s i) matcher' h = (r, h')"
    by (cases "match_start_of_text (slice s i) matcher' h")
  show ?case
  proof (cases r)
    case None
    with Cons.prems(1) e r have "matchers_loop s i before h' = (None, h1)" by simp
    from Cons.IH[OF this Cons.prems(2)] None e r show ?thesis by simp
  next
    case (Some m')
    with Cons.prems(1) e r show ?thesis by (simp split: prod.splits)
  qed
qed

lemma matchers_loop_all_decline:
  "\<forall>(ty', matcher') \<in> set before. \<forall>h'. fst (match_start_of_text (slice s i) matcher' h') = None
     \<Longrightarrow> fst (matchers_loop s i before h) = None"
proof (induction before arbitrary: h)
  case Nil
  then show ?case by simp
next
  case (Cons e before)
  obtain ty' matcher' where e: "e = (ty', matcher')" by (cases e)
  obtain r h' where r: "match_start_of_text (slice s i) matcher' h = (r, h')"
    by (cases "match_start_of_text (slice s i) matcher' h")
  from Cons.prems e have "fst (match_start_of_text (slice s i) matcher' h) = None" by simp
  with r have "r = None" by simp
  moreover from Cons.prems have "fst (matchers_loop s i before h') = None"
    by (intro Cons.IH) simp
  ultimately show ?case using e r by simp
qed

lemma matchers_loop_positive:
  "matchers_loop s i entries h = (Some t, h') \<Longrightarrow> 1 \<le> line t \<and> 1 \<le> column t"
proof (induction entries arbitrary: h)
  case Nil
  then show ?case by simp
next
  case (Cons e entries)
  obtain ty matcher where e: "e = (ty, matcher)" by (cases e)
  obtain r h1 where r: "match_start_of_text (slice s i) matcher h = (r, h1)"
    by (cases "match_start_of_text (slice s i) matcher h")
  show ?case
  proof (cases r)
    case None
    with Cons e r show ?thesis by simp
  next
    case (Some m)
    with Cons.prems e r glc_loop_positive[of "(1, 1)" s i 0] show ?thesis
      by (auto simp: get_line_and_column_def split: prod.splits)
  qed
qed

lemma for_loop_Some:
  "for_loop s token_spec i h = (Some (t, j), h') \<Longrightarrow>
     i \<le> j \<and> j < int (length s)
     \<and> (\<exists>h1. matchers_loop s j (Object_entries token_spec) h1 = (Some t, h'))"
proof (induction s token_spec i h rule: for_loop.induct)
  case (1 s token_spec i h)
  from "1.prems" have lt: "i < int (length s)"
    by (subst (asm) for_loop.simps) (simp split: if_splits)
  obtain r h1 where r: "matchers_loop s i (Object_entries token_spec) h = (r, h1)"
    by (cases "matchers_loop s i (Object_entries token_spec) h")
  show ?case
  proof (cases r)
    case None
    with "1.prems" lt r have rec: "for_loop s token_spec (i + 1) h1 = (Some (t, j), h')"
      by (subst (asm) for_loop.simps) simp
    from "1.IH"[OF lt _ _ rec] r None show ?thesis by auto
  next
    case (Some t')
    with "1.prems" lt r show ?thesis
      by (subst (asm) for_loop.simps) auto
  qed
qed

subsection \<open>The generator\<close>

lemma Generator_next_Value:
  "Generator_next g h = (Value t, g', h') \<Longrightarrow>
     \<exists>i j. for_loop (gen_text g) (gen_spec g) i h = (Some (t, j), h')
           \<and> g' = g\<lparr>gen_state := SuspendedYield j (value t)\<rparr>"
  by (auto simp: Generator_next_def resume_def split: GeneratorState.splits option.splits prod.splits)

lemma Generator_next_positive:
  "Generator_next g h = (Value t, g', h') \<Longrightarrow> 1 \<le> line t \<and> 1 \<le> column t"
  using Generator_next_Value for_loop_Some matchers_loop_positive by blast

lemma Generator_next_Done:
  "Generator_next g h = (Done, g', h') \<Longrightarrow> gen_state g' = Completed"
  by (auto simp: Generator_next_def resume_def split: GeneratorState.splits option.splits prod.splits)

lemma Generator_next_Completed:
  "gen_state g = Completed \<Longrightarrow> Generator_next g h = (Done, g, h)"
  by (simp add: Generator_next_def)

inductive_cases pulls_NilE: "pulls g h [] g' h'"

inductive_cases pulls_ConsE: "pulls g h (v # vs) g' h'"

lemma pulls_positive:
  "pulls g h tokens g' h' \<Longrightarrow> \<forall>t \<in> set tokens. 1 \<le> line t \<and> 1 \<le> column t"
  by (induction rule: pulls.induct) (auto dest: Generator_next_positive)

lemma pulls_snoc:
  "pulls g h (tokens @ [token]) g'' h'' \<Longrightarrow>
     \<exists>g' h'. pulls g h tokens g' h' \<and> Generator_next g' h' = (Value token, g'', h'')"
proof (induction tokens arbitrary: g h)
  case Nil
  then show ?case
    by (auto elim!: pulls_ConsE pulls_NilE intro: pulls.intros)
next
  case (Cons x xs)
  from Cons.prems obtain g1 h1 where
    g1: "Generator_next g h = (Value x, g1, h1)" and rest: "pulls g1 h1 (xs @ [token]) g'' h''"
    by (auto elim!: pulls_ConsE)
  from Cons.IH[OF rest] obtain g' h' where
    "pulls g1 h1 xs g' h'" "Generator_next g' h' = (Value token, g'', h'')" by blast
  with g1 show ?case by (auto intro: pulls.intros)
qed

subsection \<open>Draining the generator\<close>

text \<open>A generator that yields from a state back into the same state is never done, so
  \<^verbatim>\<open>Array.from\<close> cannot return.\<close>

inductive_cases drain_NilE: "drain g h [] h'"

inductive_cases drain_ConsE: "drain g h (v # vs) h'"

lemma Array_from_loop_stuck:
  assumes "Generator_next g h = (Value v, g, h)"
  shows "Array_from_loop g A h = None"
proof (rule ccontr)
  assume "Array_from_loop g A h \<noteq> None"
  then obtain r where r: "Array_from_loop g A h = Some r" by auto
  have "(g', h') \<noteq> (g, h)" if "Array_from_loop g' B h' = Some r'" for g' B h' r'
    by (rule Array_from_loop.raw_induct[where P = "\<lambda>g' B h' r'. (g', h') \<noteq> (g, h)", OF _ that])
       (clarsimp simp: assms, blast)
  from this[OF r] show False by simp
qed

lemma Array_from_loop_pulls:
  "pulls g h tokens g' h' \<Longrightarrow> Array_from_loop g A h = Array_from_loop g' (A @ tokens) h'"
proof (induction arbitrary: A rule: pulls.induct)
  case (pulls_Nil g h)
  show ?case by simp
next
  case (pulls_Cons g h v g' h' vs g'' h'')
  have "Array_from_loop g A h = Array_from_loop g' (A @ [v]) h'"
    using pulls_Cons.hyps(1) by (subst Array_from_loop.simps) simp
  with pulls_Cons.IH[of "A @ [v]"] show ?case by simp
qed

lemma stuck_never_ends:
  assumes "pulls (token_iterator s token_spec) h tokens g h'"
    and "Generator_next g h' = (Value v, g, h')"
  shows "tokenize s token_spec h = None"
  using Array_from_loop_stuck[OF assms(2)] Array_from_loop_pulls[OF assms(1)]
  by (simp add: tokenize_def Array_from_def)

lemma Array_from_loop_drain:
  "drain g h tokens h' \<Longrightarrow> Array_from_loop g A h = Some (A @ tokens, h')"
proof (induction arbitrary: A rule: drain.induct)
  case (drain_Done g h g' h')
  then show ?case by (subst Array_from_loop.simps) simp
next
  case (drain_Value g h v g' h' vs h'')
  then show ?case by (subst Array_from_loop.simps) simp
qed

lemma drain_Array_from_loop:
  assumes "Array_from_loop g A h = Some (r, h')"
  shows "\<exists>tokens. r = A @ tokens \<and> drain g h tokens h'"
proof -
  have "\<exists>tokens. fst y = A @ tokens \<and> drain g h tokens (snd y)"
    if "Array_from_loop g A h = Some y" for y
    by (rule Array_from_loop.raw_induct[
          where P = "\<lambda>g A h y. \<exists>tokens. fst y = A @ tokens \<and> drain g h tokens (snd y)",
          OF _ that])
       (fastforce split: prod.splits IteratorResult.splits intro: drain.intros)
  from this[OF assms] show ?thesis by simp
qed

lemma drain_append:
  "drain g h (xs @ ys) h'' \<Longrightarrow> \<exists>g' h'. pulls g h xs g' h' \<and> drain g' h' ys h''"
proof (induction xs arbitrary: g h)
  case Nil
  then show ?case by (auto intro: pulls.intros)
next
  case (Cons x xs)
  from Cons.prems obtain g1 h1 where
    g1: "Generator_next g h = (Value x, g1, h1)" and rest: "drain g1 h1 (xs @ ys) h''"
    by (auto elim!: drain_ConsE)
  from Cons.IH[OF rest] obtain g' h' where "pulls g1 h1 xs g' h'" "drain g' h' ys h''" by blast
  with g1 show ?case by (auto intro: pulls.intros)
qed

lemma drain_pulls_Done:
  "drain g h xs h'' \<Longrightarrow>
     \<exists>g' h' g''. pulls g h xs g' h' \<and> Generator_next g' h' = (Done, g'', h'')"
  by (induction rule: drain.induct) (auto intro: pulls.intros)

subsection \<open>The token stream\<close>

text \<open>\<^verbatim>\<open>close\<close> returns the result of \<^verbatim>\<open>iterator.return()\<close>, which carries no
  value, and completes the generator.\<close>

lemma TokenStream_close_Done:
  "fst (TokenStream_close this) = Done
   \<and> gen_state (iterator (snd (TokenStream_close this))) = Completed"
  by (simp add: TokenStream_close_def Generator_return_def)

lemma TokenStream_next_Completed:
  "gen_state (iterator this) = Completed \<Longrightarrow>
     TokenStream_next this ignored_types h = Some (None, this, h)"
  by (subst TokenStream_next.simps) (simp add: Generator_next_def)

lemma next_calls_Completed:
  "gen_state (iterator this) = Completed \<Longrightarrow>
     next_calls this calls h = Some (replicate (length calls) None, this, h)"
  by (induction calls) (simp_all add: TokenStream_next_Completed)

lemma TokenStream_next_skips:
  "pulls (iterator this) h (skipped @ [v]) g h' \<Longrightarrow>
   \<forall>t \<in> set skipped. type t \<in> set ignored_types \<Longrightarrow> type v \<notin> set ignored_types \<Longrightarrow>
     TokenStream_next this ignored_types h = Some (Some v, this\<lparr>iterator := g\<rparr>, h')"
proof (induction skipped arbitrary: this h)
  case Nil
  then have "Generator_next (iterator this) h = (Value v, g, h')"
    by (auto elim!: pulls_ConsE pulls_NilE)
  with Nil show ?case
    by (subst TokenStream_next.simps) (simp add: Array_includes_def)
next
  case (Cons x xs)
  from Cons.prems(1) obtain g1 h1 where
    g1: "Generator_next (iterator this) h = (Value x, g1, h1)"
    and rest: "pulls g1 h1 (xs @ [v]) g h'"
    by (auto elim!: pulls_ConsE)
  from Cons.IH[of "this\<lparr>iterator := g1\<rparr>" h1] rest Cons.prems
  have "TokenStream_next (this\<lparr>iterator := g1\<rparr>) ignored_types h1
          = Some (Some v, this\<lparr>iterator := g\<rparr>, h')"
    by simp
  with g1 Cons.prems show ?case
    by (subst TokenStream_next.simps) (simp add: Array_includes_def)
qed

lemma TokenStream_next_exhausted:
  "pulls (iterator this) h skipped g h' \<Longrightarrow>
   \<forall>t \<in> set skipped. type t \<in> set ignored_types \<Longrightarrow>
   Generator_next g h' = (Done, g', h'') \<Longrightarrow>
     TokenStream_next this ignored_types h = Some (None, this\<lparr>iterator := g'\<rparr>, h'')"
proof (induction skipped arbitrary: this h)
  case Nil
  then have "g = iterator this \<and> h' = h" by (auto elim!: pulls_NilE)
  with Nil show ?case
    by (subst TokenStream_next.simps) simp
next
  case (Cons x xs)
  from Cons.prems(1) obtain g1 h1 where
    g1: "Generator_next (iterator this) h = (Value x, g1, h1)" and rest: "pulls g1 h1 xs g h'"
    by (auto elim!: pulls_ConsE)
  from Cons.IH[of "this\<lparr>iterator := g1\<rparr>" h1] rest Cons.prems
  have "TokenStream_next (this\<lparr>iterator := g1\<rparr>) ignored_types h1
          = Some (None, this\<lparr>iterator := g'\<rparr>, h'')"
    by simp
  with g1 Cons.prems show ?case
    by (subst TokenStream_next.simps) (simp add: Array_includes_def)
qed

lemma next_calls_expected:
  "drain (iterator this) h tokens h' \<Longrightarrow>
     map_option fst (next_calls this calls h) = Some (expected_nexts tokens calls)"
proof (induction calls arbitrary: this tokens h h')
  case Nil
  then show ?case by simp
next
  case (Cons ignored_types calls)
  let ?P = "\<lambda>t. type t \<in> set ignored_types"
  show ?case
  proof (cases "dropWhile ?P tokens")
    case Nil
    then have all: "\<forall>t \<in> set tokens. ?P t" by simp
    from drain_pulls_Done[OF Cons.prems] obtain g1 h1 g2 h2 where
      p: "pulls (iterator this) h tokens g1 h1" and d: "Generator_next g1 h1 = (Done, g2, h2)"
      by blast
    from TokenStream_next_exhausted[OF p all d]
    have n: "TokenStream_next this ignored_types h = Some (None, this\<lparr>iterator := g2\<rparr>, h2)" .
    from Generator_next_Completed[OF Generator_next_Done[OF d]]
    have "drain (iterator (this\<lparr>iterator := g2\<rparr>)) h2 [] h2"
      by (auto intro: drain.intros)
    moreover from Nil
    have "expected_nexts tokens (ignored_types # calls) = None # expected_nexts [] calls"
      by (simp del: dropWhile_eq_Nil_conv)
    ultimately show ?thesis
      using Cons.IH[of "this\<lparr>iterator := g2\<rparr>" h2 "[]" h2] n
      by (auto split: option.splits)
  next
    case (Cons t rest)
    then have tokens: "tokens = takeWhile ?P tokens @ t # rest"
      by (metis takeWhile_dropWhile_id)
    from Cons have nt: "\<not> ?P t"
      by (metis dropWhile_eq_Cons_conv)
    have sk: "\<forall>x \<in> set (takeWhile ?P tokens). ?P x"
      by (auto dest: set_takeWhileD)
    from Cons.prems tokens
    have "drain (iterator this) h ((takeWhile ?P tokens @ [t]) @ rest) h'"
      by simp
    from drain_append[OF this] obtain g1 h1 where
      p: "pulls (iterator this) h (takeWhile ?P tokens @ [t]) g1 h1" and d: "drain g1 h1 rest h'"
      by blast
    from TokenStream_next_skips[OF p sk] nt
    have n: "TokenStream_next this ignored_types h = Some (Some t, this\<lparr>iterator := g1\<rparr>, h1)"
      by simp
    from d have "drain (iterator (this\<lparr>iterator := g1\<rparr>)) h1 rest h'" by simp
    moreover from Cons
    have "expected_nexts tokens (ignored_types # calls) = Some t # expected_nexts rest calls"
      by simp
    ultimately show ?thesis
      using Cons.IH[of "this\<lparr>iterator := g1\<rparr>" h1 rest h'] n
      by (auto split: option.splits)
  qed
qed

subsection \<open>The full scan\<close>

lemma total_advance_Cons: "total_advance (v # visits) = advance v + total_advance visits"
  by (simp add: total_advance_def)

text \<open>One step of a scan that returns.\<close>

lemma scan_SomeE:
  assumes "scan s token_spec i h = Some (visits, h')"
  obtains (ended) "\<not> i < int (length s)" "visits = []" "h' = h"
  | (dropped) h1 rest where "i < int (length s)"
      "matchers_loop s i (Object_entries token_spec) h = (None, h1)"
      "scan s token_spec (i + 1) h1 = Some (rest, h')" "visits = (i, None) # rest"
  | (matched) token h1 rest where "i < int (length s)"
      "matchers_loop s i (Object_entries token_spec) h = (Some token, h1)"
      "scan s token_spec (i + (int (length (value token)) - 1) + 1) h1 = Some (rest, h')"
      "visits = (i, Some token) # rest"
proof (cases "i < int (length s)")
  case False
  with assms have "visits = []" "h' = h"
    by (subst (asm) scan.simps, simp)+
  with False ended show ?thesis by simp
next
  case True
  obtain r h1 where r: "matchers_loop s i (Object_entries token_spec) h = (r, h1)"
    by (cases "matchers_loop s i (Object_entries token_spec) h")
  show ?thesis
  proof (cases r)
    case None
    with assms True r obtain rest where
      "scan s token_spec (i + 1) h1 = Some (rest, h')" "visits = (i, None) # rest"
      by (subst (asm) scan.simps) (auto simp: bind_eq_Some_conv)
    with True r None dropped show ?thesis by simp
  next
    case (Some token)
    with assms True r obtain rest where
      "scan s token_spec (i + (int (length (value token)) - 1) + 1) h1 = Some (rest, h')"
      "visits = (i, Some token) # rest"
      by (subst (asm) scan.simps) (auto simp: bind_eq_Some_conv)
    with True r Some matched show ?thesis by simp
  qed
qed

text \<open>A scan that returns is a finite run; properties of it are proved by induction on
  the number of its visits.\<close>

lemma scan_contiguous:
  "scan s token_spec i h = Some (visits, h') \<Longrightarrow> contiguous i visits"
proof (induction visits arbitrary: i h)
  case Nil
  then show ?case by simp
next
  case (Cons v rest)
  from Cons.prems show ?case
  proof (cases rule: scan_SomeE)
    case ended
    then show ?thesis by simp
  next
    case (dropped h1 rest')
    with Cons.IH[of "i + 1" h1] show ?thesis by simp
  next
    case (matched token h1 rest')
    with Cons.IH[of "i + (int (length (value token)) - 1) + 1" h1] show ?thesis
      by (simp add: add.commute)
  qed
qed

lemma scan_sums:
  "scan s token_spec i h = Some (visits, h') \<Longrightarrow> i \<le> int (length s) \<Longrightarrow>
   \<forall>(j, r) \<in> set visits. \<forall>token. r = Some token
      \<longrightarrow> int (length (value token)) \<le> int (length s) - j \<Longrightarrow>
     total_advance visits = int (length s) - i"
proof (induction visits arbitrary: i h)
  case Nil
  from Nil.prems(1) show ?case
  proof (cases rule: scan_SomeE)
    case ended
    with Nil.prems show ?thesis by (simp add: total_advance_def)
  qed simp_all
next
  case (Cons v rest)
  from Cons.prems(1) show ?case
  proof (cases rule: scan_SomeE)
    case ended
    then show ?thesis by simp
  next
    case (dropped h1 rest')
    with Cons.IH[of "i + 1" h1] Cons.prems show ?thesis
      by (simp add: total_advance_Cons)
  next
    case (matched token h1 rest')
    with Cons.prems have "i + (int (length (value token)) - 1) + 1 \<le> int (length s)"
      by simp
    with matched Cons.IH[of "i + (int (length (value token)) - 1) + 1" h1] Cons.prems
    show ?thesis
      by (simp add: total_advance_Cons)
  qed
qed

lemma scan_visits:
  "scan s token_spec i h = Some (visits, h') \<Longrightarrow>
     \<forall>(j, r) \<in> set visits. i \<le> j \<and> j < int (length s)
        \<and> (\<exists>h1. r = fst (matchers_loop s j (Object_entries token_spec) h1))"
proof (induction visits arbitrary: i h)
  case Nil
  then show ?case by simp
next
  case (Cons v rest)
  from Cons.prems show ?case
  proof (cases rule: scan_SomeE)
    case ended
    then show ?thesis by simp
  next
    case (dropped h1 rest')
    have "\<exists>h0. None = fst (matchers_loop s i (Object_entries token_spec) h0)"
      using dropped(2) by (metis fst_conv)
    with dropped Cons.IH[of "i + 1" h1] show ?thesis by fastforce
  next
    case (matched token h1 rest')
    have "\<exists>h0. Some token = fst (matchers_loop s i (Object_entries token_spec) h0)"
      using matched(2) by (metis fst_conv)
    with matched Cons.IH[of "i + (int (length (value token)) - 1) + 1" h1] show ?thesis
      by fastforce
  qed
qed

text \<open>The tokens of a scan that returns are those the generator yields, so those
  \<^verbatim>\<open>tokenize\<close> returns.\<close>

lemma scan_drain:
  "scan s token_spec i h = Some (visits, h') \<Longrightarrow>
   gen_text g = s \<Longrightarrow> gen_spec g = token_spec \<Longrightarrow> Generator_next g0 h0 = resume g i h \<Longrightarrow>
     drain g0 h0 (yielded visits) h'"
proof (induction visits arbitrary: i h g g0 h0)
  case Nil
  from Nil.prems(1) show ?case
  proof (cases rule: scan_SomeE)
    case ended
    with Nil.prems have "Generator_next g0 h0 = (Done, g\<lparr>gen_state := Completed\<rparr>, h)"
      by (simp add: resume_def for_loop.simps[of s token_spec i])
    with ended show ?thesis by (auto intro: drain.intros)
  qed simp_all
next
  case (Cons v rest)
  from Cons.prems(1) show ?case
  proof (cases rule: scan_SomeE)
    case ended
    then show ?thesis by simp
  next
    case (dropped h1 rest')
    with Cons.prems have "Generator_next g0 h0 = resume g (i + 1) h1"
      by (simp add: resume_def for_loop.simps[of s token_spec i])
    with dropped Cons.IH[of "i + 1" h1 g g0 h0] Cons.prems show ?thesis
      by simp
  next
    case (matched token h1 rest')
    let ?i' = "i + (int (length (value token)) - 1) + 1"
    let ?g' = "g\<lparr>gen_state := SuspendedYield i (value token)\<rparr>"
    from matched Cons.prems have n: "Generator_next g0 h0 = (Value token, ?g', h1)"
      by (simp add: resume_def for_loop.simps[of s token_spec i])
    have "Generator_next ?g' h1 = resume ?g' ?i' h1"
      by (simp add: Generator_next_def)
    with matched Cons.IH[of ?i' h1 ?g' ?g' h1] Cons.prems
    have "drain ?g' h1 (yielded rest) h'" by simp
    with n matched show ?thesis by (auto intro: drain.intros)
  qed
qed

lemma scan_tokenize:
  assumes "scan s token_spec 0 h = Some (visits, h')"
  shows "tokenize s token_spec h = Some (yielded visits, h')"
proof -
  have "Generator_next (token_iterator s token_spec) h = resume (token_iterator s token_spec) 0 h"
    by (simp add: Generator_next_def token_iterator_def)
  with scan_drain[OF assms, of "token_iterator s token_spec" "token_iterator s token_spec" h]
  have "drain (token_iterator s token_spec) h (yielded visits) h'"
    by (simp add: token_iterator_def)
  from Array_from_loop_drain[OF this, of "[]"] show ?thesis
    by (simp add: tokenize_def Array_from_def)
qed

text \<open>A scan ends when every match that can be accepted is at least one code unit long
  and no longer than the remaining text.\<close>

lemma scan_ends:
  assumes wb: "\<forall>j h token h'. 0 \<le> j \<and> j < int (length s)
                 \<and> matchers_loop s j (Object_entries token_spec) h = (Some token, h')
               \<longrightarrow> 1 \<le> length (value token) \<and> int (length (value token)) \<le> int (length s) - j"
  shows "0 \<le> i \<Longrightarrow> i \<le> int (length s) \<Longrightarrow> \<exists>visits h'. scan s token_spec i h = Some (visits, h')"
proof (induction "nat (int (length s) - i)" arbitrary: i h rule: less_induct)
  case less
  show ?case
  proof (cases "i < int (length s)")
    case False
    then show ?thesis
      by (subst scan.simps) simp
  next
    case True
    obtain r h1 where r: "matchers_loop s i (Object_entries token_spec) h = (r, h1)"
      by (cases "matchers_loop s i (Object_entries token_spec) h")
    show ?thesis
    proof (cases r)
      case None
      from less.hyps[of "i + 1" h1] less.prems True
      obtain visits h' where "scan s token_spec (i + 1) h1 = Some (visits, h')"
        by auto
      with True None r show ?thesis
        by (subst scan.simps) simp
    next
      case (Some token)
      with wb r less.prems True
      have len: "1 \<le> length (value token)" "int (length (value token)) \<le> int (length s) - i"
        by auto
      let ?i' = "i + (int (length (value token)) - 1) + 1"
      from len less.prems have "nat (int (length s) - ?i') < nat (int (length s) - i)"
        "0 \<le> ?i'" "?i' \<le> int (length s)"
        by auto
      from less.hyps[OF this, of h1]
      obtain visits h' where "scan s token_spec ?i' h1 = Some (visits, h')"
        by auto
      with True Some r show ?thesis
        by (subst scan.simps) simp
    qed
  qed
qed

text \<open>A scan that accepts a match of length 0 on a heap the match leaves as it was comes
  back to the same cursor on the same heap, and does not end.\<close>

lemma scan_stuck:
  assumes "i < int (length s)"
    and "matchers_loop s i (Object_entries token_spec) h = (Some token, h)"
    and "value token = []"
  shows "scan s token_spec i h = None"
proof (rule ccontr)
  assume "scan s token_spec i h \<noteq> None"
  then obtain visits h' where "scan s token_spec i h = Some (visits, h')" by auto
  then show False
  proof (induction visits)
    case Nil
    then show ?case using assms by (cases rule: scan_SomeE) simp_all
  next
    case (Cons v rest)
    from Cons.prems show ?case
      using assms Cons.IH by (cases rule: scan_SomeE) simp_all
  qed
qed

section \<open>The claims\<close>

subsection \<open>C1: a zero-length match\<close>

text \<open>
  C1 says that after an accepted match of length 0 the cursor still advances by at least
  one position, so that the scan ends. The source has no such floor: after the
  \<^verbatim>\<open>yield\<close> it runs \<^verbatim>\<open>i += match.length - 1\<close>, which is \<open>- 1\<close> for an
  empty match, and the \<^verbatim>\<open>i++\<close> of the loop only undoes it. On the text
  \<^verbatim>\<open>"a"\<close> with the specification \<^verbatim>\<open>{e: ""}\<close> the generator yields the empty
  token at cursor 0, and again the same token from the same state on every further
  \<^verbatim>\<open>next\<close>; \<^verbatim>\<open>tokenize\<close> does not return.
\<close>

theorem zero_length_match_loops_forever:
  "Generator_next (token_iterator ''a'' [(''e'', MString '''')]) h
     = (Value \<lparr>type = ''e'', value = '''', line = 1, column = 1\<rparr>,
        \<lparr>gen_text = ''a'', gen_spec = [(''e'', MString '''')], gen_state = SuspendedYield 0 ''''\<rparr>,
        h)
   \<and> Generator_next
        \<lparr>gen_text = ''a'', gen_spec = [(''e'', MString '''')], gen_state = SuspendedYield 0 ''''\<rparr> h
     = (Value \<lparr>type = ''e'', value = '''', line = 1, column = 1\<rparr>,
        \<lparr>gen_text = ''a'', gen_spec = [(''e'', MString '''')], gen_state = SuspendedYield 0 ''''\<rparr>,
        h)
   \<and> tokenize ''a'' [(''e'', MString '''')] h = None"
proof (intro conjI)
  show first: "Generator_next (token_iterator ''a'' [(''e'', MString '''')]) h
     = (Value \<lparr>type = ''e'', value = '''', line = 1, column = 1\<rparr>,
        \<lparr>gen_text = ''a'', gen_spec = [(''e'', MString '''')], gen_state = SuspendedYield 0 ''''\<rparr>,
        h)"
    by (simp add: eval_defs)
  show again: "Generator_next
        \<lparr>gen_text = ''a'', gen_spec = [(''e'', MString '''')], gen_state = SuspendedYield 0 ''''\<rparr> h
     = (Value \<lparr>type = ''e'', value = '''', line = 1, column = 1\<rparr>,
        \<lparr>gen_text = ''a'', gen_spec = [(''e'', MString '''')], gen_state = SuspendedYield 0 ''''\<rparr>,
        h)"
    by (simp add: eval_defs)
  show "tokenize ''a'' [(''e'', MString '''')] h = None"
    unfolding tokenize_def Array_from_def
    by (subst Array_from_loop.simps) (simp add: first Array_from_loop_stuck[OF again])
qed

subsection \<open>C2: the first matching entry wins\<close>

text \<open>
  C2 as stated, with ``declaration order'', fails where a type identifier is an array
  index: \<^verbatim>\<open>Object.entries\<close> lists such keys first. With the specification
  \<^verbatim>\<open>{word: /\w+/, 7: "7"}\<close> on the text \<^verbatim>\<open>"7"\<close> both matchers match at position
  0 and \<^verbatim>\<open>word\<close> is declared first, but the token yielded has the type \<^verbatim>\<open>7\<close>.
\<close>

theorem declaration_order_counterexample:
  "match_start_of_text (slice ''7'' 0) (MRegExp Word) fresh = (Some ''7'', fresh)
   \<and> match_start_of_text (slice ''7'' 0) (MString ''7'') fresh = (Some ''7'', fresh)
   \<and> tokenize ''7'' [(''word'', MRegExp Word), (''7'', MString ''7'')] fresh
       = Some ([\<lparr>type = ''7'', value = ''7'', line = 1, column = 1\<rparr>], fresh)"
  by (simp add: eval_defs)

text \<open>
  C2, amended. At every position \<open>i\<close> of the text, the loop of \<^verbatim>\<open>token_iterator\<close>
  yields the token of the earliest entry, in the order of \<^verbatim>\<open>Object.entries\<close>, whose
  matcher matches there, whatever the later entries are: the entries before it are
  tried in turn and none matches (each on the heap the one before it left; that is so
  in particular when each of them declines on every heap), and it matches on the heap
  they leave. This order is the declaration order whenever no type identifier is an
  array index. With the specification \<^verbatim>\<open>{boolean: "true", word: /\w+/}\<close> on the
  text \<^verbatim>\<open>"true"\<close> the output is the one token of type \<^verbatim>\<open>boolean\<close> and value
  \<^verbatim>\<open>"true"\<close>.
\<close>

theorem first_matching_entry_wins:
  "(0 \<le> i \<and> i < int (length s)
      \<and> Object_entries token_spec = before @ (ty, matcher) # after
      \<and> matchers_loop s i before h = (None, h1)
      \<and> match_start_of_text (slice s i) matcher h1 = (Some m, h2)
    \<longrightarrow> for_loop s token_spec i h
          = (Some (\<lparr>type = ty, value = m, line = fst (get_line_and_column s i),
                    column = snd (get_line_and_column s i)\<rparr>, i), h2))
   \<and> (0 \<le> i \<and> i < int (length s)
      \<and> Object_entries token_spec = before @ (ty, matcher) # after
      \<and> (\<forall>(ty', matcher') \<in> set before.
            \<forall>h'. fst (match_start_of_text (slice s i) matcher' h') = None)
      \<and> match_start_of_text (slice s i) matcher (snd (matchers_loop s i before h)) = (Some m, h2)
    \<longrightarrow> for_loop s token_spec i h
          = (Some (\<lparr>type = ty, value = m, line = fst (get_line_and_column s i),
                    column = snd (get_line_and_column s i)\<rparr>, i), h2))
   \<and> ((\<forall>key \<in> fst ` set token_spec. array_index key = None)
    \<longrightarrow> Object_entries token_spec = token_spec)
   \<and> tokenize ''true'' [(''boolean'', MString ''true''), (''word'', MRegExp Word)] h
       = Some ([\<lparr>type = ''boolean'', value = ''true'', line = 1, column = 1\<rparr>], h)"
proof -
  have general: "for_loop s token_spec i h
          = (Some (\<lparr>type = ty, value = m, line = fst (get_line_and_column s i),
                    column = snd (get_line_and_column s i)\<rparr>, i), h2)"
    if "i < int (length s)" "Object_entries token_spec = before @ (ty, matcher) # after"
      "matchers_loop s i before h = (None, h1)"
      "match_start_of_text (slice s i) matcher h1 = (Some m, h2)" for h1
  proof -
    from that have "matchers_loop s i (Object_entries token_spec) h
       = (Some \<lparr>type = ty, value = m, line = fst (get_line_and_column s i),
                column = snd (get_line_and_column s i)\<rparr>, h2)"
      using matchers_loop_first_match[of s i before h h1 matcher m h2 ty after] by simp
    with that(1) show ?thesis
      by (subst for_loop.simps) simp
  qed
  show ?thesis
  proof (intro conjI impI)
    assume "0 \<le> i \<and> i < int (length s)
      \<and> Object_entries token_spec = before @ (ty, matcher) # after
      \<and> matchers_loop s i before h = (None, h1)
      \<and> match_start_of_text (slice s i) matcher h1 = (Some m, h2)"
    then show "for_loop s token_spec i h
          = (Some (\<lparr>type = ty, value = m, line = fst (get_line_and_column s i),
                    column = snd (get_line_and_column s i)\<rparr>, i), h2)"
      using general[of h1] by simp
  next
    assume a: "0 \<le> i \<and> i < int (length s)
      \<and> Object_entries token_spec = before @ (ty, matcher) # after
      \<and> (\<forall>(ty', matcher') \<in> set before.
            \<forall>h'. fst (match_start_of_text (slice s i) matcher' h') = None)
      \<and> match_start_of_text (slice s i) matcher (snd (matchers_loop s i before h)) = (Some m, h2)"
    then have "fst (matchers_loop s i before h) = None"
      using matchers_loop_all_decline[of before s i h] by simp
    then have "matchers_loop s i before h = (None, snd (matchers_loop s i before h))"
      by (simp add: prod_eq_iff)
    with a show "for_loop s token_spec i h
          = (Some (\<lparr>type = ty, value = m, line = fst (get_line_and_column s i),
                    column = snd (get_line_and_column s i)\<rparr>, i), h2)"
      using general[of "snd (matchers_loop s i before h)"] by simp
  next
    assume "\<forall>key \<in> fst ` set token_spec. array_index key = None"
    then show "Object_entries token_spec = token_spec"
      by (rule Object_entries_no_array_index)
  next
    show "tokenize ''true'' [(''boolean'', MString ''true''), (''word'', MRegExp Word)] h
       = Some ([\<lparr>type = ''boolean'', value = ''true'', line = 1, column = 1\<rparr>], h)"
      by (simp add: eval_defs)
  qed
qed

theorem first_matching_entry_wins_witness:
  "Object_entries [(''number'', MString ''1''), (''boolean'', MString ''true''), (''word'', MRegExp Word)]
     = [(''number'', MString ''1'')] @ (''boolean'', MString ''true'') # [(''word'', MRegExp Word)]
   \<and> array_index ''number'' = None \<and> array_index ''boolean'' = None
   \<and> array_index ''word'' = None
   \<and> matchers_loop ''true'' 0 [(''number'', MString ''1'')] fresh = (None, fresh)
   \<and> match_start_of_text (slice ''true'' 0) (MString ''true'') fresh = (Some ''true'', fresh)
   \<and> match_start_of_text (slice ''true'' 0) (MRegExp Word) fresh = (Some ''true'', fresh)
   \<and> for_loop ''true''
        [(''number'', MString ''1''), (''boolean'', MString ''true''), (''word'', MRegExp Word)] 0 fresh
       = (Some (\<lparr>type = ''boolean'', value = ''true'', line = 1, column = 1\<rparr>, 0), fresh)"
proof -
  let ?spec = "[(''number'', MString ''1''), (''boolean'', MString ''true''), (''word'', MRegExp Word)]"
  have e: "Object_entries ?spec
     = [(''number'', MString ''1'')] @ (''boolean'', MString ''true'') # [(''word'', MRegExp Word)]"
    by (simp add: eval_defs)
  have m1: "matchers_loop ''true'' 0 [(''number'', MString ''1'')] fresh = (None, fresh)"
    and m2: "match_start_of_text (slice ''true'' 0) (MString ''true'') fresh = (Some ''true'', fresh)"
    and m3: "match_start_of_text (slice ''true'' 0) (MRegExp Word) fresh = (Some ''true'', fresh)"
    by (simp_all add: eval_defs)
  have d: "\<forall>(ty', matcher') \<in> set [(''number'', MString ''1'')].
            \<forall>h'. fst (match_start_of_text (slice ''true'' 0) matcher' h') = None"
    by (simp add: eval_defs)
  have glc: "get_line_and_column ''true'' 0 = (1, 1)"
    by (simp add: eval_defs)
  have keys: "array_index ''number'' = None" "array_index ''boolean'' = None"
    "array_index ''word'' = None"
    by (simp_all add: eval_defs)
  from first_matching_entry_wins[of 0 "''true''" ?spec "[(''number'', MString ''1'')]" "''boolean''"
      "MString ''true''" "[(''word'', MRegExp Word)]" fresh fresh "''true''" fresh]
    e m1 m2 m3 d glc keys
  show ?thesis by simp
qed

subsection \<open>C3: the advances of the cursor\<close>

text \<open>
  C3 says that the advances of the cursor over a full scan sum exactly to the length of
  the text and that no position is visited twice. The source breaks it at an accepted
  match of length 0, the defect of C1: on the text \<^verbatim>\<open>"a"\<close> with the specification
  \<^verbatim>\<open>{e: ""}\<close> the visit of cursor 0 accepts the empty match, its advance is 0, the
  loop resumed after the \<^verbatim>\<open>yield\<close> visits cursor 0 again, on the same heap, and the
  scan has no end: the advances never reach the length 1 of the text.
\<close>

theorem zero_length_match_never_advances:
  "matchers_loop ''a'' 0 (Object_entries [(''e'', MString '''')]) h
     = (Some \<lparr>type = ''e'', value = '''', line = 1, column = 1\<rparr>, h)
   \<and> advance (0, Some \<lparr>type = ''e'', value = '''', line = 1, column = 1\<rparr>) = 0
   \<and> for_loop ''a'' [(''e'', MString '''')]
         (0 + (int (length (value \<lparr>type = ''e'', value = '''', line = 1, column = 1\<rparr>)) - 1) + 1) h
       = (Some (\<lparr>type = ''e'', value = '''', line = 1, column = 1\<rparr>, 0), h)
   \<and> scan ''a'' [(''e'', MString '''')] 0 h = None
   \<and> int (length ''a'') = 1"
proof (intro conjI)
  show m: "matchers_loop ''a'' 0 (Object_entries [(''e'', MString '''')]) h
     = (Some \<lparr>type = ''e'', value = '''', line = 1, column = 1\<rparr>, h)"
    by (simp add: eval_defs)
  show "scan ''a'' [(''e'', MString '''')] 0 h = None"
    by (rule scan_stuck[OF _ m]) simp_all
qed (simp_all add: eval_defs)

subsection \<open>C4: the three matcher variants\<close>

text \<open>
  C4 says that a \<^verbatim>\<open>RegExp\<close> matcher returns the earliest match of the remaining
  text exactly when that match starts at offset 0. The source calls
  \<^verbatim>\<open>matcher.exec(text)\<close> and never resets \<^verbatim>\<open>lastIndex\<close>, so a \<^verbatim>\<open>RegExp\<close> with
  the \<^verbatim>\<open>g\<close> flag searches from where its last match ended. With \<^verbatim>\<open>/\w/g\<close>, not
  used before: on \<^verbatim>\<open>"ab"\<close> the matcher returns \<^verbatim>\<open>"a"\<close>; called again on the same
  text it returns \<^verbatim>\<open>null\<close>; and on the remaining text \<^verbatim>\<open>"b"\<close>, where the pattern
  matches at offset 0, it returns \<^verbatim>\<open>null\<close> as well, so that \<^verbatim>\<open>tokenize\<close> on
  \<^verbatim>\<open>"ab"\<close> returns the token of \<^verbatim>\<open>"a"\<close> alone.
\<close>

theorem global_regexp_misses_match_at_start:
  "match_start_of_text ''ab'' (MRegExp WordCharacter_g) fresh = (Some ''a'', fresh(2 := 1))
   \<and> match_start_of_text ''ab'' (MRegExp WordCharacter_g) (fresh(2 := 1)) = (None, fresh(2 := 2))
   \<and> pattern WordCharacter_g ''b'' 0 = Some 1
   \<and> match_start_of_text ''b'' (MRegExp WordCharacter_g) (fresh(2 := 1)) = (None, fresh(2 := 0))
   \<and> tokenize ''ab'' [(''w'', MRegExp WordCharacter_g)] fresh
       = Some ([\<lparr>type = ''w'', value = ''a'', line = 1, column = 1\<rparr>], fresh(2 := 0))"
  by (simp add: eval_defs fun_eq_iff)

subsection \<open>C5: line and column of an offset\<close>

text \<open>
  C5. For every text and every offset \<open>i\<close> with \<open>0 \<le> i \<le> length\<close>,
  \<^verbatim>\<open>get_line_and_column(text, i)\<close> is the pair of the line, 1 plus the number of
  newline characters strictly before \<open>i\<close>, and the column, 1 plus the number of
  characters between the most recent such newline (or the start of the text) and
  \<open>i\<close>. The text \<^verbatim>\<open>"a\nb"\<close> scanned with the catch-all matcher
  \<^verbatim>\<open>/./s\<close> yields three tokens, at (1,1), (1,2) and (2,1).
\<close>

theorem get_line_and_column_position:
  "(0 \<le> i \<and> i \<le> int (length s) \<longrightarrow>
      get_line_and_column s i =
        (1 + int (count_list (take (nat i) s) newline),
         1 + int (length (takeWhile (\<lambda>c. c \<noteq> newline) (rev (take (nat i) s))))))
   \<and> tokenize (''a'' @ [newline] @ ''b'') [(''undefined'', MRegExp AnyCharacter)] h =
       Some ([\<lparr>type = ''undefined'', value = ''a'', line = 1, column = 1\<rparr>,
              \<lparr>type = ''undefined'', value = [newline], line = 1, column = 2\<rparr>,
              \<lparr>type = ''undefined'', value = ''b'', line = 2, column = 1\<rparr>], h)"
proof (intro conjI impI)
  assume "0 \<le> i \<and> i \<le> int (length s)"
  then show "get_line_and_column s i =
        (1 + int (count_list (take (nat i) s) newline),
         1 + int (length (takeWhile (\<lambda>c. c \<noteq> newline) (rev (take (nat i) s)))))"
    unfolding get_line_and_column_def
    by (intro glc_loop_closed_form) simp_all
next
  show "tokenize (''a'' @ [newline] @ ''b'') [(''undefined'', MRegExp AnyCharacter)] h =
       Some ([\<lparr>type = ''undefined'', value = ''a'', line = 1, column = 1\<rparr>,
              \<lparr>type = ''undefined'', value = [newline], line = 1, column = 2\<rparr>,
              \<lparr>type = ''undefined'', value = ''b'', line = 2, column = 1\<rparr>], h)"
    by (simp add: eval_defs)
qed

theorem get_line_and_column_position_witness:
  "(0::int) \<le> 3 \<and> (3::int) \<le> int (length (''a'' @ [newline] @ ''bc''))
   \<and> get_line_and_column (''a'' @ [newline] @ ''bc'') 3 = (2, 2)"
  using get_line_and_column_position[of 3 "''a'' @ [newline] @ ''bc''"]
  by (simp add: newline_def)

subsection \<open>C6: \<^verbatim>\<open>tokenize\<close> is the eager drain of \<^verbatim>\<open>token_iterator\<close>\<close>

text \<open>
  C6. For every text, every specification and every heap, \<^verbatim>\<open>tokenize(text, spec)\<close>
  returns a list of tokens exactly when draining \<^verbatim>\<open>token_iterator(text, spec)\<close> to
  exhaustion gives these tokens in this order, and both leave the same heap (and so
  \<^verbatim>\<open>tokenize\<close> does not return exactly when the generator never reports that it is
  done).
\<close>

theorem tokenize_is_eager_drain:
  "tokenize s token_spec h = Some (tokens, h') \<longleftrightarrow> drain (token_iterator s token_spec) h tokens h'"
  unfolding tokenize_def Array_from_def
  using Array_from_loop_drain[of "token_iterator s token_spec" h tokens h' "[]"]
    drain_Array_from_loop[of "token_iterator s token_spec" "[]" h tokens h']
  by auto

theorem tokenize_is_eager_drain_witness:
  "tokenize ''a b'' [(''ws'', MString '' ''), (''word'', MRegExp Word)] fresh
     = Some ([\<lparr>type = ''word'', value = ''a'', line = 1, column = 1\<rparr>,
              \<lparr>type = ''ws'', value = '' '', line = 1, column = 2\<rparr>,
              \<lparr>type = ''word'', value = ''b'', line = 1, column = 3\<rparr>], fresh)
   \<and> drain (token_iterator ''a b'' [(''ws'', MString '' ''), (''word'', MRegExp Word)]) fresh
         [\<lparr>type = ''word'', value = ''a'', line = 1, column = 1\<rparr>,
          \<lparr>type = ''ws'', value = '' '', line = 1, column = 2\<rparr>,
          \<lparr>type = ''word'', value = ''b'', line = 1, column = 3\<rparr>] fresh"
proof -
  have t: "tokenize ''a b'' [(''ws'', MString '' ''), (''word'', MRegExp Word)] fresh
     = Some ([\<lparr>type = ''word'', value = ''a'', line = 1, column = 1\<rparr>,
              \<lparr>type = ''ws'', value = '' '', line = 1, column = 2\<rparr>,
              \<lparr>type = ''word'', value = ''b'', line = 1, column = 3\<rparr>], fresh)"
    by (simp add: eval_defs)
  with tokenize_is_eager_drain[of "''a b''" "[(''ws'', MString '' ''), (''word'', MRegExp Word)]"
      fresh
      "[\<lparr>type = ''word'', value = ''a'', line = 1, column = 1\<rparr>,
        \<lparr>type = ''ws'', value = '' '', line = 1, column = 2\<rparr>,
        \<lparr>type = ''word'', value = ''b'', line = 1, column = 3\<rparr>]" fresh]
  show ?thesis by simp
qed

subsection \<open>C7: \<^verbatim>\<open>TokenStream.next\<close>\<close>

text \<open>
  C7. Whatever the ignored types of a call, \<^verbatim>\<open>next\<close> returns the earliest token
  the underlying generator has not yet produced whose type is not ignored, and leaves
  the generator right after that token; when the generator is exhausted before such a
  token comes, \<^verbatim>\<open>next\<close> returns \<^verbatim>\<open>null\<close>, and so does every further call. Over
  a sequence of calls, each with its own ignored types, on a stream whose underlying
  tokens are \<open>tokens\<close>, the results are those expected: each call drops the ignored
  tokens at the front of what is left and returns the next one, so the tokens returned
  keep their relative order.
\<close>

theorem TokenStream_next_earliest_not_ignored:
  "(pulls (iterator this) h (skipped @ [v]) g h1
      \<and> (\<forall>t \<in> set skipped. type t \<in> set ignored_types) \<and> type v \<notin> set ignored_types
    \<longrightarrow> TokenStream_next this ignored_types h = Some (Some v, this\<lparr>iterator := g\<rparr>, h1))
   \<and> (pulls (iterator this) h skipped' g' h2
      \<and> (\<forall>t \<in> set skipped'. type t \<in> set ignored_types') \<and> Generator_next g' h2 = (Done, g'', h3)
    \<longrightarrow> TokenStream_next this ignored_types' h = Some (None, this\<lparr>iterator := g''\<rparr>, h3)
      \<and> TokenStream_next (this\<lparr>iterator := g''\<rparr>) ignored_types'' h4
          = Some (None, this\<lparr>iterator := g''\<rparr>, h4))
   \<and> (drain (iterator this) h tokens h5
    \<longrightarrow> map_option fst (next_calls this calls h) = Some (expected_nexts tokens calls))"
proof (intro conjI impI)
  assume "pulls (iterator this) h (skipped @ [v]) g h1
      \<and> (\<forall>t \<in> set skipped. type t \<in> set ignored_types) \<and> type v \<notin> set ignored_types"
  then show "TokenStream_next this ignored_types h = Some (Some v, this\<lparr>iterator := g\<rparr>, h1)"
    using TokenStream_next_skips[of this h skipped v g h1 ignored_types] by simp
next
  assume a: "pulls (iterator this) h skipped' g' h2
      \<and> (\<forall>t \<in> set skipped'. type t \<in> set ignored_types') \<and> Generator_next g' h2 = (Done, g'', h3)"
  then show "TokenStream_next this ignored_types' h = Some (None, this\<lparr>iterator := g''\<rparr>, h3)"
    using TokenStream_next_exhausted[of this h skipped' g' h2 ignored_types' g'' h3] by simp
  from a have "gen_state (iterator (this\<lparr>iterator := g''\<rparr>)) = Completed"
    using Generator_next_Done[of g' h2 g'' h3] by simp
  from TokenStream_next_Completed[OF this]
  show "TokenStream_next (this\<lparr>iterator := g''\<rparr>) ignored_types'' h4
          = Some (None, this\<lparr>iterator := g''\<rparr>, h4)" .
next
  assume "drain (iterator this) h tokens h5"
  then show "map_option fst (next_calls this calls h) = Some (expected_nexts tokens calls)"
    by (rule next_calls_expected)
qed

theorem TokenStream_next_earliest_not_ignored_witness:
  "pulls (iterator (TokenStream_new ''a b'' [(''ws'', MString '' ''), (''word'', MRegExp Word)])) fresh
     ([\<lparr>type = ''word'', value = ''a'', line = 1, column = 1\<rparr>]
      @ [\<lparr>type = ''ws'', value = '' '', line = 1, column = 2\<rparr>])
     \<lparr>gen_text = ''a b'', gen_spec = [(''ws'', MString '' ''), (''word'', MRegExp Word)],
        gen_state = SuspendedYield 1 '' ''\<rparr> fresh
   \<and> TokenStream_next (TokenStream_new ''a b'' [(''ws'', MString '' ''), (''word'', MRegExp Word)])
         [''word''] fresh
       = Some (Some \<lparr>type = ''ws'', value = '' '', line = 1, column = 2\<rparr>,
               \<lparr>iterator =
                  \<lparr>gen_text = ''a b'', gen_spec = [(''ws'', MString '' ''), (''word'', MRegExp Word)],
                     gen_state = SuspendedYield 1 '' ''\<rparr>\<rparr>,
               fresh)
   \<and> TokenStream_next (TokenStream_new ''a b'' [(''ws'', MString '' ''), (''word'', MRegExp Word)])
         [''word'', ''ws''] fresh
       = Some (None,
               \<lparr>iterator =
                  \<lparr>gen_text = ''a b'', gen_spec = [(''ws'', MString '' ''), (''word'', MRegExp Word)],
                     gen_state = Completed\<rparr>\<rparr>,
               fresh)
   \<and> map_option fst
         (next_calls (TokenStream_new ''a b'' [(''ws'', MString '' ''), (''word'', MRegExp Word)])
            [[''ws''], [], [''ws''], []] fresh)
       = Some [Some \<lparr>type = ''word'', value = ''a'', line = 1, column = 1\<rparr>,
               Some \<lparr>type = ''ws'', value = '' '', line = 1, column = 2\<rparr>,
               Some \<lparr>type = ''word'', value = ''b'', line = 1, column = 3\<rparr>,
               None]"
proof -
  let ?spec = "[(''ws'', MString '' ''), (''word'', MRegExp Word)]"
  let ?a = "\<lparr>type = ''word'', value = ''a'', line = 1, column = 1\<rparr>"
  let ?w = "\<lparr>type = ''ws'', value = '' '', line = 1, column = 2\<rparr>"
  let ?b = "\<lparr>type = ''word'', value = ''b'', line = 1, column = 3\<rparr>"
  let ?g1 = "\<lparr>gen_text = ''a b'', gen_spec = ?spec, gen_state = SuspendedYield 0 ''a''\<rparr>"
  let ?g2 = "\<lparr>gen_text = ''a b'', gen_spec = ?spec, gen_state = SuspendedYield 1 '' ''\<rparr>"
  let ?g3 = "\<lparr>gen_text = ''a b'', gen_spec = ?spec, gen_state = SuspendedYield 2 ''b''\<rparr>"
  let ?g4 = "\<lparr>gen_text = ''a b'', gen_spec = ?spec, gen_state = Completed\<rparr>"
  let ?s = "TokenStream_new ''a b'' ?spec"
  have n0: "Generator_next (iterator ?s) fresh = (Value ?a, ?g1, fresh)"
    by (simp add: TokenStream_new_def eval_defs)
  have n1: "Generator_next ?g1 fresh = (Value ?w, ?g2, fresh)"
    by (simp add: eval_defs)
  have n2: "Generator_next ?g2 fresh = (Value ?b, ?g3, fresh)"
    by (simp add: eval_defs)
  have n3: "Generator_next ?g3 fresh = (Done, ?g4, fresh)"
    by (simp add: eval_defs)
  have p2: "pulls (iterator ?s) fresh ([?a] @ [?w]) ?g2 fresh"
    using pulls_Cons[OF n0 pulls_Cons[OF n1 pulls_Nil]] by simp
  have p3: "pulls (iterator ?s) fresh [?a, ?w, ?b] ?g3 fresh"
    using pulls_Cons[OF n0 pulls_Cons[OF n1 pulls_Cons[OF n2 pulls_Nil]]] .
  have d: "drain (iterator ?s) fresh [?a, ?w, ?b] fresh"
    using drain_Value[OF n0 drain_Value[OF n1 drain_Value[OF n2 drain_Done[OF n3]]]] .
  from TokenStream_next_earliest_not_ignored[of ?s fresh "[?a]" ?w ?g2 fresh "[''word'']"
      "[?a, ?w, ?b]" ?g3 fresh "[''word'', ''ws'']" ?g4 fresh "[]" fresh
      "[?a, ?w, ?b]" fresh "[[''ws''], [], [''ws''], []]"]
    p2 p3 n3 d
  show ?thesis
    by (simp add: TokenStream_new_def)
qed

subsection \<open>C8: what \<^verbatim>\<open>close\<close> returns\<close>

text \<open>
  C8 says that \<^verbatim>\<open>close()\<close> returns the last produced value if any, as the comment
  of the method does (``the last token or null''). The source returns the result of
  \<^verbatim>\<open>iterator.return()\<close>, which is \<^verbatim>\<open>{value: undefined, done: true}\<close> whatever
  the stream has produced: on the text \<^verbatim>\<open>"a"\<close> with the specification
  \<^verbatim>\<open>{x: "a"}\<close>, \<^verbatim>\<open>next()\<close> returns the token \<^verbatim>\<open>x\<close>, and \<^verbatim>\<open>close()\<close>
  after it returns no token; it does complete the generator.
\<close>

theorem close_returns_no_token:
  "TokenStream_next (TokenStream_new ''a'' [(''x'', MString ''a'')]) [] h
     = Some (Some \<lparr>type = ''x'', value = ''a'', line = 1, column = 1\<rparr>,
             \<lparr>iterator = \<lparr>gen_text = ''a'', gen_spec = [(''x'', MString ''a'')],
                          gen_state = SuspendedYield 0 ''a''\<rparr>\<rparr>,
             h)
   \<and> TokenStream_close
        \<lparr>iterator = \<lparr>gen_text = ''a'', gen_spec = [(''x'', MString ''a'')],
                     gen_state = SuspendedYield 0 ''a''\<rparr>\<rparr>
     = (Done, \<lparr>iterator = \<lparr>gen_text = ''a'', gen_spec = [(''x'', MString ''a'')],
                            gen_state = Completed\<rparr>\<rparr>)"
  by (simp add: TokenStream_next.simps TokenStream_new_def TokenStream_close_def
      Generator_return_def Array_includes_def eval_defs)

subsection \<open>C9: \<^verbatim>\<open>next\<close> after \<^verbatim>\<open>close\<close>\<close>

text \<open>
  C9. After \<^verbatim>\<open>close()\<close>, whatever the stream was, every further call of
  \<^verbatim>\<open>next\<close> returns \<^verbatim>\<open>null\<close> and leaves the stream and the heap as they are: any
  sequence of calls, each with its own ignored types, returns \<^verbatim>\<open>null\<close> every time.
\<close>

theorem next_after_close:
  "next_calls (snd (TokenStream_close this)) calls h
     = Some (replicate (length calls) None, snd (TokenStream_close this), h)"
  by (rule next_calls_Completed) (simp add: TokenStream_close_def Generator_return_def)

theorem next_after_close_witness:
  "next_calls (snd (TokenStream_close (TokenStream_new ''ab'' [(''a'', MString ''a''), (''b'', MString ''b'')])))
       [[], [''a''], [''a'', ''b'']] fresh
     = Some ([None, None, None],
             \<lparr>iterator = \<lparr>gen_text = ''ab'', gen_spec = [(''a'', MString ''a''), (''b'', MString ''b'')],
                          gen_state = Completed\<rparr>\<rparr>,
             fresh)"
  using next_after_close[of "TokenStream_new ''ab'' [(''a'', MString ''a''), (''b'', MString ''b'')]"
      "[[], [''a''], [''a'', ''b'']]" fresh]
  by (simp add: TokenStream_close_def Generator_return_def TokenStream_new_def token_iterator_def)

subsection \<open>C10: positions are positive\<close>

text \<open>
  C10. \<^verbatim>\<open>get_line_and_column\<close> returns a line and a column that are at least 1,
  whatever the text and the index, and every token that \<^verbatim>\<open>token_iterator\<close> yields,
  for any text, any specification and any heap, has line \<open>\<ge> 1\<close> and column
  \<open>\<ge> 1\<close>.
\<close>

theorem token_positions_positive:
  "(1 \<le> fst (get_line_and_column s index) \<and> 1 \<le> snd (get_line_and_column s index))
   \<and> (pulls (token_iterator s token_spec) h tokens g h' \<longrightarrow>
        (\<forall>t \<in> set tokens. 1 \<le> line t \<and> 1 \<le> column t))"
  using glc_loop_positive[of "(1, 1)" s index 0] pulls_positive
  by (auto simp: get_line_and_column_def)

theorem token_positions_positive_witness:
  "pulls (token_iterator ''ab'' [(''b'', MString ''b'')]) fresh
     [\<lparr>type = ''b'', value = ''b'', line = 1, column = 2\<rparr>]
     \<lparr>gen_text = ''ab'', gen_spec = [(''b'', MString ''b'')], gen_state = SuspendedYield 1 ''b''\<rparr>
     fresh
   \<and> (1::int) \<le> line \<lparr>type = ''b'', value = ''b'', line = 1, column = 2\<rparr>
   \<and> (1::int) \<le> column \<lparr>type = ''b'', value = ''b'', line = 1, column = 2\<rparr>"
proof -
  have p: "pulls (token_iterator ''ab'' [(''b'', MString ''b'')]) fresh
     [\<lparr>type = ''b'', value = ''b'', line = 1, column = 2\<rparr>]
     \<lparr>gen_text = ''ab'', gen_spec = [(''b'', MString ''b'')], gen_state = SuspendedYield 1 ''b''\<rparr>
     fresh"
    by (rule pulls_Cons[OF _ pulls_Nil]) (simp add: eval_defs)
  with token_positions_positive[of "''ab''" 0 "[(''b'', MString ''b'')]" fresh
      "[\<lparr>type = ''b'', value = ''b'', line = 1, column = 2\<rparr>]"]
  show ?thesis by simp
qed

end
